theory Spec2Isabelle
  imports Main "HOL-Library.While_Combinator" "HOL-Library.Option_ord"
begin

section \<open>The graph model of package ossa\<close>

text \<open>
  Blocks and values are Go heap objects that the program only ever handles through
  pointers and compares by identity. A pointer is modelled as an optional address:
  \<open>None\<close> is Go's \<open>nil\<close>, \<open>Some a\<close> points at the object stored at
  index \<open>a\<close> of the relevant heap (a list of objects, so that every heap is finite).
\<close>

type_synonym block_ptr = "nat option"
type_synonym value_ptr = "nat option"

text \<open>Every run-time panic the modelled functions can raise.\<close>

datatype panic =
    NilDereference
  | IndexOutOfRange
  | SliceBoundsOutOfRange
  | MissingCase
  | NonTerminatorOperation

subsection \<open>Operation codes (\<open>type Op int\<close> with an iota block)\<close>

type_synonym Op = int

abbreviation opInvalid :: Op where "opInvalid \<equiv> 0"
abbreviation OpGlobalSym :: Op where "OpGlobalSym \<equiv> 1"
abbreviation OpLocalSym :: Op where "OpLocalSym \<equiv> 2"
abbreviation OpArgument :: Op where "OpArgument \<equiv> 3"
abbreviation OpAuxLiteral :: Op where "OpAuxLiteral \<equiv> 4"
abbreviation OpPhi :: Op where "OpPhi \<equiv> 5"
abbreviation OpLoad :: Op where "OpLoad \<equiv> 6"
abbreviation OpStore :: Op where "OpStore \<equiv> 7"
abbreviation OpCall :: Op where "OpCall \<equiv> 8"
abbreviation opBasicBlock :: Op where "opBasicBlock \<equiv> 9"
abbreviation opEndValues :: Op where "opEndValues \<equiv> 10"
abbreviation OpJump :: Op where "OpJump \<equiv> 11"
abbreviation OpBranch :: Op where "OpBranch \<equiv> 12"
abbreviation OpSwitch :: Op where "OpSwitch \<equiv> 13"
abbreviation OpReturn :: Op where "OpReturn \<equiv> 14"
abbreviation OpYield :: Op where "OpYield \<equiv> 15"
abbreviation OpAwait :: Op where "OpAwait \<equiv> 16"
abbreviation OpUnreachable :: Op where "OpUnreachable \<equiv> 17"
abbreviation opEndTerminators :: Op where "opEndTerminators \<equiv> 18"

definition Op_Value :: "Op \<Rightarrow> bool" where
  "Op_Value o' = (o' > opInvalid \<and> o' < opEndValues)"

definition Op_Terminator :: "Op \<Rightarrow> bool" where
  "Op_Terminator o' = (o' > opEndValues \<and> o' < opEndTerminators)"

definition Op_Valid :: "Op \<Rightarrow> bool" where
  "Op_Valid o' = (Op_Value o' \<or> Op_Terminator o')"

subsection \<open>Values (\<open>type Value struct\<close> and its factory functions)\<close>

text \<open>
  The field \<open>aux\<close> is an \<open>interface{}\<close>: nothing, a block pointer (used by
  \<open>bbvsAsArgs\<close>) or any other Go value, left abstract as \<open>'x\<close>. The field
  \<open>argsBuf\<close> is only the backing array of \<open>args\<close>; the model keeps the slice
  \<open>args\<close> itself.
\<close>

datatype 'x aux = AuxNil | AuxBlock block_ptr | AuxAny 'x

record 'x Value =
  v_op :: Op
  v_args :: "value_ptr list"
  v_aux :: "'x aux"

type_synonym 'x value_heap = "'x Value list"

text \<open>\<open>&Value{...}\<close>: the new object gets the next free address.\<close>

definition new_Value :: "'x value_heap \<Rightarrow> 'x Value \<Rightarrow> value_ptr \<times> 'x value_heap" where
  "new_Value h v = (Some (length h), h @ [v])"

definition AuxLiteral :: "'x aux \<Rightarrow> 'x value_heap \<Rightarrow> value_ptr \<times> 'x value_heap" where
  "AuxLiteral v h = new_Value h \<lparr>v_op = OpAuxLiteral, v_args = [], v_aux = v\<rparr>"

definition GlobalSym :: "'x value_heap \<Rightarrow> value_ptr \<times> 'x value_heap" where
  "GlobalSym h = new_Value h \<lparr>v_op = OpGlobalSym, v_args = [], v_aux = AuxNil\<rparr>"

definition LocalSym :: "'x value_heap \<Rightarrow> value_ptr \<times> 'x value_heap" where
  "LocalSym h = new_Value h \<lparr>v_op = OpLocalSym, v_args = [], v_aux = AuxNil\<rparr>"

definition Argument :: "'x value_heap \<Rightarrow> value_ptr \<times> 'x value_heap" where
  "Argument h = new_Value h \<lparr>v_op = OpArgument, v_args = [], v_aux = AuxNil\<rparr>"

text \<open>
  \<open>Load\<close>: \<open>v.args = v.argsBuf[:1]\<close> is a one-element slice of nil pointers, whose
  element 0 is then assigned.
\<close>

definition Load :: "value_ptr \<Rightarrow> 'x value_heap \<Rightarrow> value_ptr \<times> 'x value_heap" where
  "Load ref h =
     new_Value h \<lparr>v_op = OpLoad, v_args = (replicate 1 None)[0 := ref], v_aux = AuxNil\<rparr>"

text \<open>
  \<open>Store\<close>: \<open>v := &Value{op: OpStore}; v.args = v.argsBuf[:2]; v.args[0] = v;
  v.args[1] = ref; return v\<close>. The pointer assigned to element 0 is \<open>v\<close>, the
  address of the node under construction.
\<close>

definition Store :: "value_ptr \<Rightarrow> value_ptr \<Rightarrow> 'x value_heap \<Rightarrow> value_ptr \<times> 'x value_heap" where
  "Store val ref h =
     (let v = Some (length h)
      in (v, h @ [\<lparr>v_op = OpStore, v_args = (replicate 2 None)[0 := v, 1 := ref],
                   v_aux = AuxNil\<rparr>]))"

text \<open>\<open>Call\<close>: the callee, then every actual argument, appended in order.\<close>

definition Call :: "value_ptr \<Rightarrow> value_ptr list \<Rightarrow> 'x value_heap \<Rightarrow> value_ptr \<times> 'x value_heap" where
  "Call callee actuals h =
     new_Value h \<lparr>v_op = OpCall, v_args = fold (\<lambda>a aa. aa @ [a]) actuals [callee],
                  v_aux = AuxNil\<rparr>"

subsection \<open>Terminators (\<open>type Terminator struct\<close> and its factory functions)\<close>

record BasicBlockValue =
  Block :: block_ptr
  Value :: value_ptr

record Terminator =
  t_op :: Op
  t_args :: "BasicBlockValue list"

text \<open>A fresh \<open>argsBuf\<close> slot: both pointers nil.\<close>

definition zero_BasicBlockValue :: BasicBlockValue where
  "zero_BasicBlockValue = \<lparr>Block = None, Value = None\<rparr>"

definition Jump :: "block_ptr \<Rightarrow> Terminator" where
  "Jump target = \<lparr>t_op = OpJump, t_args = [zero_BasicBlockValue\<lparr>Block := target\<rparr>]\<rparr>"

definition Branch :: "value_ptr \<Rightarrow> block_ptr \<Rightarrow> block_ptr \<Rightarrow> Terminator" where
  "Branch cond trueTarget falseTarget =
     \<lparr>t_op = OpBranch,
      t_args = [zero_BasicBlockValue\<lparr>Value := cond, Block := trueTarget\<rparr>,
                zero_BasicBlockValue\<lparr>Block := falseTarget\<rparr>]\<rparr>"

definition Switch :: "value_ptr \<Rightarrow> block_ptr \<Rightarrow> BasicBlockValue list \<Rightarrow> Terminator" where
  "Switch inp defTarget cases =
     \<lparr>t_op = OpSwitch, t_args = ([] @ [\<lparr>Block = defTarget, Value = inp\<rparr>]) @ cases\<rparr>"

definition Return :: "value_ptr \<Rightarrow> Terminator" where
  "Return ret = \<lparr>t_op = OpReturn, t_args = [zero_BasicBlockValue\<lparr>Value := ret\<rparr>]\<rparr>"

definition Yield :: "block_ptr \<Rightarrow> Terminator" where
  "Yield resume = \<lparr>t_op = OpYield, t_args = [zero_BasicBlockValue\<lparr>Block := resume\<rparr>]\<rparr>"

definition Await :: "value_ptr \<Rightarrow> block_ptr \<Rightarrow> Terminator" where
  "Await event resume =
     \<lparr>t_op = OpAwait, t_args = [zero_BasicBlockValue\<lparr>Value := event, Block := resume\<rparr>]\<rparr>"

definition Unreachable :: Terminator where
  "Unreachable = \<lparr>t_op = OpUnreachable, t_args = []\<rparr>"

text \<open>\<open>t.args[i].Block\<close>, with Go's index check.\<close>

definition arg_Block :: "Terminator \<Rightarrow> nat \<Rightarrow> panic + block_ptr" where
  "arg_Block t i = (if i < length (t_args t) then Inr (Block (t_args t ! i)) else Inl IndexOutOfRange)"

text \<open>
  \<open>Terminator.AppendSuccessors\<close>: the \<open>switch t.op\<close>, case by case and in the
  source's order. The \<open>OpSwitch\<close> case is the \<open>range\<close> loop over \<open>t.args\<close>.
\<close>

definition AppendSuccessors :: "Terminator \<Rightarrow> block_ptr list \<Rightarrow> panic + block_ptr list" where
  "AppendSuccessors t to =
     (if t_op t = OpJump then
        (case arg_Block t 0 of Inl e \<Rightarrow> Inl e | Inr b \<Rightarrow> Inr (to @ [b]))
      else if t_op t = OpBranch then
        (case arg_Block t 0 of Inl e \<Rightarrow> Inl e | Inr b0 \<Rightarrow>
           (case arg_Block t 1 of Inl e \<Rightarrow> Inl e | Inr b1 \<Rightarrow> Inr (to @ [b0, b1])))
      else if t_op t = OpSwitch then
        Inr (fold (\<lambda>arg ret. ret @ [Block arg]) (t_args t) to)
      else if t_op t = OpReturn \<or> t_op t = OpUnreachable then
        Inr to
      else if t_op t = OpYield \<or> t_op t = OpAwait then
        (case arg_Block t 0 of Inl e \<Rightarrow> Inl e | Inr b \<Rightarrow> Inr (to @ [b]))
      else if Op_Terminator (t_op t) then Inl MissingCase
      else Inl NonTerminatorOperation)"

text \<open>
  \<open>Terminator.AddSuccessors\<close>: every successor is handed, in order, to the \<open>Add\<close>
  method of a \<open>BasicBlockAdder\<close>; \<open>add\<close> is that method as a state transformer.
\<close>

definition Terminator_AddSuccessors ::
  "Terminator \<Rightarrow> (block_ptr \<Rightarrow> 's \<Rightarrow> 's) \<Rightarrow> 's \<Rightarrow> panic + 's" where
  "Terminator_AddSuccessors t add to =
     (case AppendSuccessors t [] of
        Inl e \<Rightarrow> Inl e
      | Inr succs \<Rightarrow> Inr (fold add succs to))"

subsection \<open>Basic blocks\<close>

record BasicBlock =
  Instructions :: "value_ptr list"
  Terminator :: "Terminator option"

type_synonym heap = "BasicBlock list"

text \<open>\<open>b.Terminator\<close> followed by a use of the terminator: either pointer may be nil.\<close>

definition block_Terminator :: "heap \<Rightarrow> block_ptr \<Rightarrow> panic + Terminator" where
  "block_Terminator h b =
     (case b of
        None \<Rightarrow> Inl NilDereference
      | Some a \<Rightarrow>
          if a < length h then
            (case Terminator (h ! a) of None \<Rightarrow> Inl NilDereference | Some t \<Rightarrow> Inr t)
          else Inl NilDereference)"

definition AddSuccessors ::
  "heap \<Rightarrow> block_ptr \<Rightarrow> (block_ptr \<Rightarrow> 's \<Rightarrow> 's) \<Rightarrow> 's \<Rightarrow> panic + 's" where
  "AddSuccessors h b add to =
     (case block_Terminator h b of
        Inl e \<Rightarrow> Inl e
      | Inr t \<Rightarrow> Terminator_AddSuccessors t add to)"

text \<open>
  A Go \<open>for\<close> loop whose body may panic: the loop state is \<open>Inr\<close> a state
  while the loop runs normally and \<open>Inl\<close> the panic once one was raised, which ends
  the loop. \<open>while_option\<close> gives \<open>None\<close> when the loop never ends.
\<close>

definition loop_cond :: "('s \<Rightarrow> bool) \<Rightarrow> panic + 's \<Rightarrow> bool" where
  "loop_cond c s = (case s of Inl e \<Rightarrow> False | Inr st \<Rightarrow> c st)"

definition loop_step :: "('s \<Rightarrow> panic + 's) \<Rightarrow> panic + 's \<Rightarrow> panic + 's" where
  "loop_step f s = (case s of Inl e \<Rightarrow> Inl e | Inr st \<Rightarrow> f st)"

definition run_loop :: "('s \<Rightarrow> bool) \<Rightarrow> ('s \<Rightarrow> panic + 's) \<Rightarrow> 's \<Rightarrow> (panic + 's) option" where
  "run_loop c f s0 = while_option (loop_cond c) (loop_step f) (Inr s0)"

text \<open>
  \<open>BasicBlock.AddReachable\<close>, receiver \<open>b\<close>. The loop state is the slice
  \<open>todo\<close> and the set \<open>to\<close>. The last statement of the loop body reads
  \<open>todo = b.Terminator.AppendSuccessors(todo)\<close>: it enumerates the successors of the
  receiver \<open>b\<close>, not of the popped \<open>block\<close>.
\<close>

definition AddReachable_body ::
  "heap \<Rightarrow> block_ptr \<Rightarrow> block_ptr list \<times> block_ptr set \<Rightarrow> panic + block_ptr list \<times> block_ptr set" where
  "AddReachable_body h b s =
     (case s of (todo, to) \<Rightarrow>
        (let block = last todo; todo1 = butlast todo
         in if block \<in> to then Inr (todo1, to)
            else (case block_Terminator h b of
                    Inl e \<Rightarrow> Inl e
                  | Inr t \<Rightarrow>
                      (case AppendSuccessors t todo1 of
                         Inl e \<Rightarrow> Inl e
                       | Inr todo2 \<Rightarrow> Inr (todo2, insert block to)))))"

definition AddReachable :: "heap \<Rightarrow> block_ptr \<Rightarrow> block_ptr set \<Rightarrow> (panic + block_ptr set) option" where
  "AddReachable h b to =
     map_option (map_sum id snd)
       (run_loop (\<lambda>s. fst s \<noteq> []) (AddReachable_body h b) ([] @ [b], to))"

section \<open>Block containers of package oana\<close>

subsection \<open>The stack \<open>blockLIFO\<close>\<close>

text \<open>The top of the stack is the last element of \<open>items\<close>.\<close>

record blockLIFO =
  items :: "block_ptr list"
  present :: "block_ptr set"

definition newBlockLIFO :: "nat \<Rightarrow> blockLIFO" where
  "newBlockLIFO initialCapacity = \<lparr>items = [], present = {}\<rparr>"

definition LIFO_Add :: "block_ptr \<Rightarrow> blockLIFO \<Rightarrow> blockLIFO" where
  "LIFO_Add block q =
     (if block \<in> present q then q
      else q\<lparr>items := items q @ [block], present := insert block (present q)\<rparr>)"

definition LIFO_Has :: "blockLIFO \<Rightarrow> block_ptr \<Rightarrow> bool" where
  "LIFO_Has q block = (block \<in> present q)"

definition LIFO_Empty :: "blockLIFO \<Rightarrow> bool" where
  "LIFO_Empty q = (length (items q) = 0)"

definition LIFO_Length :: "blockLIFO \<Rightarrow> nat" where
  "LIFO_Length q = length (items q)"

text \<open>
  The swap loop of \<open>ReverseTopN\<close>:
  \<open>for i := 0; i < c; i++ { items[i], items[l-i-1] = items[l-i-1], items[i] }\<close>.
\<close>

function ReverseTopN_loop :: "nat \<Rightarrow> nat \<Rightarrow> nat \<Rightarrow> block_ptr list \<Rightarrow> block_ptr list" where
  "ReverseTopN_loop i c l xs =
     (if i < c then ReverseTopN_loop (i + 1) c l (xs[i := xs ! (l - i - 1), l - i - 1 := xs ! i])
      else xs)"
  by pat_completeness auto
termination
  by (relation "measure (\<lambda>(i, c, l, xs). c - i)") auto

declare ReverseTopN_loop.simps [simp del]

text \<open>
  \<open>ReverseTopN\<close>: \<open>q.items[l-n:]\<close> panics unless \<open>0 \<le> l - n \<le> l\<close>; the slice
  shares its storage with \<open>q.items\<close>, so the swaps happen in the top \<open>n\<close> places
  of the stack.
\<close>

definition ReverseTopN :: "blockLIFO \<Rightarrow> int \<Rightarrow> panic + blockLIFO" where
  "ReverseTopN q n =
     (let l = int (length (items q))
      in if l - n < 0 \<or> l - n > l then Inl SliceBoundsOutOfRange
         else (let lo = nat (l - n);
                   view = drop lo (items q);
                   l' = length view;
                   c = l' div 2
               in Inr (q\<lparr>items := take lo (items q) @ ReverseTopN_loop 0 c l' view\<rparr>)))"

definition LIFO_Peek :: "blockLIFO \<Rightarrow> block_ptr" where
  "LIFO_Peek q = (if LIFO_Empty q then None else last (items q))"

text \<open>\<open>Next\<close> returns the popped block and the stack after the call.\<close>

definition LIFO_Next :: "blockLIFO \<Rightarrow> block_ptr \<times> blockLIFO" where
  "LIFO_Next q =
     (let ret = LIFO_Peek q
      in if ret = None then (None, q)
         else (ret, q\<lparr>items := butlast (items q), present := present q - {ret}\<rparr>))"

subsection \<open>The queue \<open>blockFIFO\<close>\<close>

text \<open>
  A singly linked list of entries. Entries are heap objects of their own: an entry
  pointer is an optional index into \<open>fifo_entries\<close>, the entries allocated so far by
  \<open>Add\<close>.
\<close>

record blockFIFOEntry =
  e_block :: block_ptr
  e_next :: "nat option"

record blockFIFO =
  fifo_next :: "nat option"
  fifo_end :: "nat option"
  fifo_present :: "block_ptr set"
  fifo_entries :: "blockFIFOEntry list"

definition newblockFIFO :: blockFIFO where
  "newblockFIFO = \<lparr>fifo_next = None, fifo_end = None, fifo_present = {}, fifo_entries = []\<rparr>"

definition FIFO_Add :: "block_ptr \<Rightarrow> blockFIFO \<Rightarrow> blockFIFO" where
  "FIFO_Add block q =
     (if block \<in> fifo_present q then q
      else (let entry = Some (length (fifo_entries q));
                es = fifo_entries q @ [\<lparr>e_block = block, e_next = None\<rparr>]
            in (case fifo_end q of
                  Some e \<Rightarrow>
                    q\<lparr>fifo_end := entry, fifo_present := insert block (fifo_present q),
                      fifo_entries := es[e := (es ! e)\<lparr>e_next := entry\<rparr>]\<rparr>
                | None \<Rightarrow>
                    q\<lparr>fifo_next := entry, fifo_end := entry,
                      fifo_present := insert block (fifo_present q), fifo_entries := es\<rparr>)))"

definition FIFO_Has :: "blockFIFO \<Rightarrow> block_ptr \<Rightarrow> bool" where
  "FIFO_Has q block = (block \<in> fifo_present q)"

definition FIFO_Empty :: "blockFIFO \<Rightarrow> bool" where
  "FIFO_Empty q = (fifo_next q = None)"

text \<open>\<open>Peek\<close> is the single statement \<open>return q.next.block\<close>.\<close>

definition FIFO_Peek :: "blockFIFO \<Rightarrow> panic + block_ptr" where
  "FIFO_Peek q =
     (case fifo_next q of
        None \<Rightarrow> Inl NilDereference
      | Some e \<Rightarrow> Inr (e_block (fifo_entries q ! e)))"

definition FIFO_Next :: "blockFIFO \<Rightarrow> block_ptr \<times> blockFIFO" where
  "FIFO_Next q =
     (case fifo_next q of
        None \<Rightarrow> (None, q)
      | Some e \<Rightarrow>
          (let ret = e_block (fifo_entries q ! e);
               nxt = e_next (fifo_entries q ! e);
               q1 = q\<lparr>fifo_next := nxt\<rparr>;
               q2 = (if nxt = None then q1\<lparr>fifo_end := None\<rparr> else q1)
           in (ret, q2\<lparr>fifo_present := fifo_present q2 - {ret}\<rparr>)))"

section \<open>The analyses of package oana\<close>

subsection \<open>The forward data flow driver\<close>

text \<open>
  A \<open>BlockAnalyzer\<close> is an object with one method, \<open>AnalyzeBlock(block) (changed bool)\<close>,
  which may update the analyzer's own state \<open>'a\<close>.
\<close>

type_synonym 'a BlockAnalyzer = "block_ptr \<Rightarrow> 'a \<Rightarrow> bool \<times> 'a"

definition ForwardDataFlow_body ::
  "heap \<Rightarrow> 'a BlockAnalyzer \<Rightarrow> blockLIFO \<times> 'a \<Rightarrow> panic + blockLIFO \<times> 'a" where
  "ForwardDataFlow_body h analyzer s =
     (case s of (q, a) \<Rightarrow>
        (case LIFO_Next q of (block, q1) \<Rightarrow>
           (case analyzer block a of (changed, a1) \<Rightarrow>
              if changed then
                (let l = LIFO_Length q1
                 in case AddSuccessors h block LIFO_Add q1 of
                      Inl e \<Rightarrow> Inl e
                    | Inr q2 \<Rightarrow>
                        (case ReverseTopN q2 (int (LIFO_Length q2) - int l) of
                           Inl e \<Rightarrow> Inl e
                         | Inr q3 \<Rightarrow> Inr (q3, a1)))
              else Inr (q1, a1))))"

definition ForwardDataFlow ::
  "heap \<Rightarrow> block_ptr \<Rightarrow> 'a BlockAnalyzer \<Rightarrow> 'a \<Rightarrow> (panic + 'a) option" where
  "ForwardDataFlow h start analyzer a =
     map_option (map_sum id snd)
       (run_loop (\<lambda>s. \<not> LIFO_Empty (fst s)) (ForwardDataFlow_body h analyzer)
          (LIFO_Add start (newBlockLIFO 6), a))"

text \<open>The analyzer of \<open>TestForwardDataFlow\<close>; a missing key of \<open>changeCount\<close> reads as 0.\<close>

record loggingBlockAnalyzer =
  changeCount :: "block_ptr \<rightharpoonup> int"
  calls :: "block_ptr list"

definition logging_AnalyzeBlock :: "loggingBlockAnalyzer BlockAnalyzer" where
  "logging_AnalyzeBlock block a =
     (let a1 = a\<lparr>calls := calls a @ [block]\<rparr>;
          ct = (case changeCount a1 block of None \<Rightarrow> 0 | Some n \<Rightarrow> n)
      in if ct > 0 then (True, a1\<lparr>changeCount := (changeCount a1)(block \<mapsto> ct - 1)\<rparr>)
         else (False, a1))"

subsection \<open>Predecessors\<close>

type_synonym PredecessorsTable = "block_ptr \<rightharpoonup> block_ptr set"
type_synonym DominatorsTable = "block_ptr \<rightharpoonup> block_ptr set"

text \<open>Reading \<open>t[b]\<close>: a missing key gives the nil set, which reads as the empty set.\<close>

definition table_get :: "(block_ptr \<rightharpoonup> block_ptr set) \<Rightarrow> block_ptr \<Rightarrow> block_ptr set" where
  "table_get t b = (case t b of None \<Rightarrow> {} | Some s \<Rightarrow> s)"

text \<open>
  The closure that \<open>FindPredecessors\<close> passes to \<open>AddSuccessors\<close>: it captures
  \<open>pred\<close> and \<open>seen\<close> and updates \<open>ret\<close> and the stack \<open>q\<close>.
\<close>

definition FindPredecessors_visit ::
  "block_ptr \<Rightarrow> block_ptr set \<Rightarrow> block_ptr \<Rightarrow> PredecessorsTable \<times> blockLIFO
     \<Rightarrow> PredecessorsTable \<times> blockLIFO" where
  "FindPredecessors_visit pred seen succ s =
     (case s of (ret, q) \<Rightarrow>
        (let ret1 = (if ret succ = None then ret(succ \<mapsto> {}) else ret);
             ret2 = ret1(succ \<mapsto> insert pred (table_get ret1 succ))
         in (ret2, if succ \<notin> seen then LIFO_Add succ q else q)))"

definition FindPredecessors_body ::
  "heap \<Rightarrow> PredecessorsTable \<times> block_ptr set \<times> blockLIFO
     \<Rightarrow> panic + PredecessorsTable \<times> block_ptr set \<times> blockLIFO" where
  "FindPredecessors_body h s =
     (case s of (ret, seen, q) \<Rightarrow>
        (case LIFO_Next q of (pred, q1) \<Rightarrow>
           (let seen1 = insert pred seen
            in case AddSuccessors h pred (FindPredecessors_visit pred seen1) (ret, q1) of
                 Inl e \<Rightarrow> Inl e
               | Inr (ret2, q2) \<Rightarrow> Inr (ret2, seen1, q2))))"

definition FindPredecessors :: "heap \<Rightarrow> block_ptr \<Rightarrow> (panic + PredecessorsTable) option" where
  "FindPredecessors h start =
     map_option (map_sum id fst)
       (run_loop (\<lambda>s. \<not> LIFO_Empty (snd (snd s))) (FindPredecessors_body h)
          (Map.empty, {}, LIFO_Add start (newBlockLIFO 6)))"

subsection \<open>Dominators\<close>

text \<open>
  Go does not fix the order in which \<open>range\<close> delivers the keys of a map. The model
  takes that order as a parameter: \<open>order k S\<close> is the order in which the \<open>k\<close>-th
  \<open>range\<close> statement of a run delivers the members of \<open>S\<close>.
\<close>

type_synonym range_order = "nat \<Rightarrow> block_ptr set \<Rightarrow> block_ptr list"

definition range_order_ok :: "range_order \<Rightarrow> bool" where
  "range_order_ok order = (\<forall>k S. finite S \<longrightarrow> set (order k S) = S \<and> distinct (order k S))"

text \<open>
  One iteration of \<open>for p := range a.preds[block]\<close>. The set \<open>s\<close> of the source is
  the object stored at \<open>a.t[block]\<close>, and \<open>pd\<close> is the object stored at
  \<open>a.t[p]\<close> (the same object when \<open>p\<close> is \<open>block\<close>), so both are read from
  the current table.
\<close>

text \<open>
  \<open>BasicBlockSet.AddBlocksTo\<close> adds every member of the receiver to the given set.
  The inner loop of \<open>AnalyzeBlock\<close>,
  \<open>for b := range s { if !pd.Has(b) { s.Remove(b) } }\<close>, keeps the members of
  \<open>s\<close> that \<open>pd\<close> has. Neither result depends on the order of the \<open>range\<close>.
\<close>

definition AddBlocksTo :: "block_ptr set \<Rightarrow> block_ptr set \<Rightarrow> block_ptr set" where
  "AddBlocksTo s to = to \<union> s"

definition remove_missing :: "block_ptr set \<Rightarrow> block_ptr set \<Rightarrow> block_ptr set" where
  "remove_missing s pd = {b \<in> s. b \<in> pd}"

definition dominators_range_step ::
  "block_ptr \<Rightarrow> block_ptr \<Rightarrow> DominatorsTable \<times> bool \<Rightarrow> DominatorsTable \<times> bool" where
  "dominators_range_step block p s =
     (case s of (t, first) \<Rightarrow>
        (case t p of
           None \<Rightarrow> (t, first)
         | Some pd \<Rightarrow>
             if first then (t(block \<mapsto> AddBlocksTo pd (table_get t block)), False)
             else (t(block \<mapsto> remove_missing (table_get t block) pd), first)))"

text \<open>\<open>dominatorsAnalyzer.AnalyzeBlock\<close>; \<open>ps\<close> is the order of the \<open>range\<close>.\<close>

definition dominators_AnalyzeBlock ::
  "PredecessorsTable \<Rightarrow> block_ptr list \<Rightarrow> block_ptr \<Rightarrow> DominatorsTable \<Rightarrow> bool \<times> DominatorsTable" where
  "dominators_AnalyzeBlock preds ps block t =
     (let t1 = (if t block = None then t(block \<mapsto> {}) else t);
          priorLen = card (table_get t1 block);
          t2 = fst (fold (dominators_range_step block) ps (t1, True));
          t3 = t2(block \<mapsto> insert block (table_get t2 block))
      in (card (table_get t3 block) \<noteq> priorLen, t3))"

text \<open>The analyzer object: its table, and the number of calls so far.\<close>

definition dominatorsAnalyzer ::
  "range_order \<Rightarrow> PredecessorsTable \<Rightarrow> (DominatorsTable \<times> nat) BlockAnalyzer" where
  "dominatorsAnalyzer order preds block s =
     (case s of (t, k) \<Rightarrow>
        (case dominators_AnalyzeBlock preds (order k (table_get preds block)) block t of
           (changed, t') \<Rightarrow> (changed, (t', Suc k))))"

definition FindDominators ::
  "range_order \<Rightarrow> heap \<Rightarrow> block_ptr \<Rightarrow> PredecessorsTable \<Rightarrow> (panic + DominatorsTable) option" where
  "FindDominators order h start preds =
     map_option (map_sum id fst)
       (ForwardDataFlow h start (dominatorsAnalyzer order preds) (Map.empty, 0))"

subsection \<open>Natural loops\<close>

record NaturalLoop =
  Head :: block_ptr
  Tail :: block_ptr

text \<open>The closure that \<open>FindNaturalLoops\<close> passes to \<open>AddSuccessors\<close>.\<close>

definition FindNaturalLoops_visit ::
  "block_ptr \<Rightarrow> block_ptr set \<Rightarrow> block_ptr \<Rightarrow> NaturalLoop list \<Rightarrow> NaturalLoop list" where
  "FindNaturalLoops_visit block blockDoms succ to =
     (if succ \<notin> blockDoms then to else to @ [\<lparr>Head = succ, Tail = block\<rparr>])"

text \<open>\<open>for block, blockDoms := range doms\<close>, over the keys in the order delivered.\<close>

fun FindNaturalLoops_range ::
  "heap \<Rightarrow> DominatorsTable \<Rightarrow> block_ptr list \<Rightarrow> NaturalLoop list \<Rightarrow> panic + NaturalLoop list" where
  "FindNaturalLoops_range h doms [] to = Inr to"
| "FindNaturalLoops_range h doms (block # rest) to =
     (case AddSuccessors h block (FindNaturalLoops_visit block (table_get doms block)) to of
        Inl e \<Rightarrow> Inl e
      | Inr to' \<Rightarrow> FindNaturalLoops_range h doms rest to')"

definition FindNaturalLoops ::
  "range_order \<Rightarrow> heap \<Rightarrow> DominatorsTable \<Rightarrow> NaturalLoop list \<Rightarrow> panic + NaturalLoop list" where
  "FindNaturalLoops order h doms to = FindNaturalLoops_range h doms (order 0 (dom doms)) to"

text \<open>
  \<open>NaturalLoop.FindBody\<close>. The loop state is the set \<open>ret\<close>, the stack \<open>q\<close> and
  the number of \<open>range\<close> statements run so far.
\<close>

definition FindBody_body ::
  "range_order \<Rightarrow> PredecessorsTable \<Rightarrow> block_ptr set \<times> blockLIFO \<times> nat
     \<Rightarrow> panic + block_ptr set \<times> blockLIFO \<times> nat" where
  "FindBody_body order preds s =
     (case s of (ret, q, k) \<Rightarrow>
        (case LIFO_Next q of (block, q1) \<Rightarrow>
           if block \<notin> ret
           then Inr (insert block ret, fold LIFO_Add (order k (table_get preds block)) q1, Suc k)
           else Inr (ret, q1, k)))"

definition FindBody ::
  "range_order \<Rightarrow> NaturalLoop \<Rightarrow> PredecessorsTable \<Rightarrow> (panic + block_ptr set) option" where
  "FindBody order l preds =
     map_option (map_sum id fst)
       (run_loop (\<lambda>s. \<not> LIFO_Empty (fst (snd s))) (FindBody_body order preds)
          (insert (Head l) {}, LIFO_Add (Tail l) (newBlockLIFO 4), 0))"

section \<open>The graphs of the test suite\<close>

text \<open>The blocks that the tests allocate, by address.\<close>

definition entry :: block_ptr where "entry = Some 0"
definition loopHeader :: block_ptr where "loopHeader = Some 1"
definition loopBody :: block_ptr where "loopBody = Some 2"
definition exit_block :: block_ptr where "exit_block = Some 3"
definition loopTail :: block_ptr where "loopTail = Some 4"

text \<open>
  The graph of \<open>TestForwardDataFlow\<close>, \<open>TestFindPredecessors\<close> and
  \<open>TestFindDominators\<close>: entry jumps to loopHeader, loopHeader branches to loopBody
  or exit, loopBody jumps back to loopHeader, exit returns. The two \<open>AuxLiteral(nil)\<close>
  values are the value pointers \<open>Some 0\<close> and \<open>Some 1\<close>.
\<close>

definition canonical_loop :: heap where
  "canonical_loop =
     [\<lparr>Instructions = [], Terminator = Some (Jump loopHeader)\<rparr>,
      \<lparr>Instructions = [], Terminator = Some (Branch (Some 0) loopBody exit_block)\<rparr>,
      \<lparr>Instructions = [], Terminator = Some (Jump loopHeader)\<rparr>,
      \<lparr>Instructions = [], Terminator = Some (Return (Some 1))\<rparr>]"

text \<open>The graph of \<open>TestFindNaturalLoops\<close>: loopBody jumps to loopTail, which jumps back.\<close>

definition tail_loop :: heap where
  "tail_loop =
     [\<lparr>Instructions = [], Terminator = Some (Jump loopHeader)\<rparr>,
      \<lparr>Instructions = [], Terminator = Some (Branch (Some 0) loopBody exit_block)\<rparr>,
      \<lparr>Instructions = [], Terminator = Some (Jump loopTail)\<rparr>,
      \<lparr>Instructions = [], Terminator = Some (Return (Some 1))\<rparr>,
      \<lparr>Instructions = [], Terminator = Some (Jump loopHeader)\<rparr>]"

text \<open>The analyzer state that \<open>TestForwardDataFlow\<close> starts from.\<close>

definition test_analyzer :: loggingBlockAnalyzer where
  "test_analyzer =
     \<lparr>changeCount = [entry \<mapsto> 1, loopHeader \<mapsto> 2, loopBody \<mapsto> 1, exit_block \<mapsto> 1],
      calls = []\<rparr>"

text \<open>One possible order of \<open>range\<close>: always by ascending address, nil first.\<close>

definition sorted_order :: range_order where
  "sorted_order k S = sorted_list_of_set S"

text \<open>The predecessor tables of the two graphs, as \<open>FindPredecessors\<close> builds them.\<close>

definition canonical_preds :: PredecessorsTable where
  "canonical_preds =
     [loopHeader \<mapsto> {entry, loopBody}, loopBody \<mapsto> {loopHeader}, exit_block \<mapsto> {loopHeader}]"

definition tail_preds :: PredecessorsTable where
  "tail_preds =
     [loopHeader \<mapsto> {entry, loopTail}, loopBody \<mapsto> {loopHeader}, loopTail \<mapsto> {loopBody},
      exit_block \<mapsto> {loopHeader}]"

text \<open>
  A graph of two blocks in which the start block lies on a cycle: entry jumps to
  loopHeader and loopHeader jumps back to entry. Its predecessor table follows.
\<close>

definition two_cycle :: heap where
  "two_cycle =
     [\<lparr>Instructions = [], Terminator = Some (Jump loopHeader)\<rparr>,
      \<lparr>Instructions = [], Terminator = Some (Jump entry)\<rparr>]"

definition two_cycle_preds :: PredecessorsTable where
  "two_cycle_preds = [loopHeader \<mapsto> {entry}, entry \<mapsto> {loopHeader}]"

text \<open>
  A value heap holding the result of \<open>AuxLiteral(nil)\<close> at address 0 and the result
  of \<open>LocalSym()\<close> at address 1.
\<close>

definition two_values :: "unit value_heap" where
  "two_values = snd (LocalSym (snd (AuxLiteral AuxNil [])))"

text \<open>A block whose conditional branch names the same target twice: itself.\<close>

definition twin_branch :: heap where
  "twin_branch = [\<lparr>Instructions = [], Terminator = Some (Branch (Some 0) entry entry)\<rparr>]"

section \<open>Notions used to state the properties\<close>

text \<open>
  The successors of a block, as \<open>AddSuccessors\<close> enumerates them: the slice
  \<open>t.AppendSuccessors(nil)\<close> of the block's terminator, or the panic raised on the way.
\<close>

definition successors :: "heap \<Rightarrow> block_ptr \<Rightarrow> panic + block_ptr list" where
  "successors h b =
     (case block_Terminator h b of Inl e \<Rightarrow> Inl e | Inr t \<Rightarrow> AppendSuccessors t [])"

definition successors_of :: "heap \<Rightarrow> block_ptr \<Rightarrow> block_ptr list" where
  "successors_of h b = (case successors h b of Inl e \<Rightarrow> [] | Inr ss \<Rightarrow> ss)"

text \<open>
  The edges of the graph, the blocks reachable from a start block, and the reachable
  blocks with an edge into a given block.
\<close>

definition edges :: "heap \<Rightarrow> (block_ptr \<times> block_ptr) set" where
  "edges h = {(a, b). \<exists>ss. successors h a = Inr ss \<and> b \<in> set ss}"

definition reachable :: "heap \<Rightarrow> block_ptr \<Rightarrow> block_ptr set" where
  "reachable h start = (edges h)\<^sup>* `` {start}"

definition reachable_preds :: "heap \<Rightarrow> block_ptr \<Rightarrow> block_ptr \<Rightarrow> block_ptr set" where
  "reachable_preds h start b = {a \<in> reachable h start. (a, b) \<in> edges h}"

text \<open>
  Every block reachable from the start, and every key of a dominators table, is a block
  with a terminator whose successors can be enumerated.
\<close>

definition all_reachable_terminated :: "heap \<Rightarrow> block_ptr \<Rightarrow> bool" where
  "all_reachable_terminated h start = (\<forall>b \<in> reachable h start. \<exists>ss. successors h b = Inr ss)"

definition all_keys_terminated :: "heap \<Rightarrow> DominatorsTable \<Rightarrow> bool" where
  "all_keys_terminated h doms = (\<forall>b \<in> dom doms. \<exists>ss. successors h b = Inr ss)"

text \<open>The loops that \<open>FindNaturalLoops\<close> records while it visits block \<open>b\<close>.\<close>

definition back_edges :: "heap \<Rightarrow> DominatorsTable \<Rightarrow> block_ptr \<Rightarrow> NaturalLoop list" where
  "back_edges h doms b =
     map (\<lambda>s. \<lparr>Head = s, Tail = b\<rparr>) (filter (\<lambda>s. s \<in> table_get doms b) (successors_of h b))"

text \<open>
  The representation invariant of the stack: \<open>present\<close> is the set of the items, and
  no item occurs twice.
\<close>

definition LIFO_ok :: "blockLIFO \<Rightarrow> bool" where
  "LIFO_ok q = (present q = set (items q) \<and> distinct (items q))"

text \<open>
  The loop invariant of \<open>FindPredecessors\<close>: the blocks popped so far (\<open>seen\<close>) and
  the blocks on the stack are disjoint, reachable and contain the start block; every
  successor of a popped block is popped or on the stack; and \<open>ret\<close> holds exactly the
  edges that leave popped blocks.
\<close>

definition FindPredecessors_inv ::
  "heap \<Rightarrow> block_ptr \<Rightarrow> PredecessorsTable \<times> block_ptr set \<times> blockLIFO \<Rightarrow> bool" where
  "FindPredecessors_inv h start s =
     (case s of (ret, seen, q) \<Rightarrow>
        LIFO_ok q \<and> seen \<inter> set (items q) = {} \<and> seen \<union> set (items q) \<subseteq> reachable h start
        \<and> start \<in> seen \<union> set (items q)
        \<and> edges h `` seen \<subseteq> seen \<union> set (items q)
        \<and> (\<forall>b. ret b = (if {a \<in> seen. (a, b) \<in> edges h} = {} then None
                        else Some {a \<in> seen. (a, b) \<in> edges h})))"

section \<open>Successor enumeration\<close>

lemma fold_append_Block: "fold (\<lambda>arg ret. ret @ [Block arg]) as to = to @ map Block as"
  by (induction as arbitrary: to) simp_all

text \<open>
  Claim C7. For every terminator built by one of the factory functions, enumerating its
  successors appends to the given slice: the target for a jump; the true target, then the
  false target for a branch; the default target, then the case targets in declaration
  order for a switch; nothing for return and unreachable; the resume target for yield and
  await.
\<close>

theorem AppendSuccessors_factories:
  "AppendSuccessors (Jump target) to = Inr (to @ [target])
   \<and> AppendSuccessors (Branch cond trueTarget falseTarget) to = Inr (to @ [trueTarget, falseTarget])
   \<and> AppendSuccessors (Switch inp defTarget cases) to = Inr (to @ defTarget # map Block cases)
   \<and> AppendSuccessors (Return ret) to = Inr to
   \<and> AppendSuccessors Unreachable to = Inr to
   \<and> AppendSuccessors (Yield resume) to = Inr (to @ [resume])
   \<and> AppendSuccessors (Await event resume) to = Inr (to @ [resume])"
  by (simp add: AppendSuccessors_def arg_Block_def fold_append_Block Jump_def Branch_def
      Switch_def Return_def Unreachable_def Yield_def Await_def zero_BasicBlockValue_def)

section \<open>Running the loops on the test graphs\<close>

lemma blocks_distinct [simp]:
  "entry \<noteq> loopHeader" "entry \<noteq> loopBody" "entry \<noteq> exit_block" "entry \<noteq> loopTail"
  "loopHeader \<noteq> entry" "loopHeader \<noteq> loopBody" "loopHeader \<noteq> exit_block"
  "loopHeader \<noteq> loopTail"
  "loopBody \<noteq> entry" "loopBody \<noteq> loopHeader" "loopBody \<noteq> exit_block" "loopBody \<noteq> loopTail"
  "exit_block \<noteq> entry" "exit_block \<noteq> loopHeader" "exit_block \<noteq> loopBody"
  "exit_block \<noteq> loopTail"
  "loopTail \<noteq> entry" "loopTail \<noteq> loopHeader" "loopTail \<noteq> loopBody" "loopTail \<noteq> exit_block"
  "entry \<noteq> None" "loopHeader \<noteq> None" "loopBody \<noteq> None" "exit_block \<noteq> None"
  "loopTail \<noteq> None"
  by (simp_all add: entry_def loopHeader_def loopBody_def exit_block_def loopTail_def)

text \<open>One turn of a loop: test the condition, run the body, stop at a panic.\<close>

lemma run_loop_unfold:
  "run_loop c f s =
     (if c s then (case f s of Inl e \<Rightarrow> Some (Inl e) | Inr s' \<Rightarrow> run_loop c f s')
      else Some (Inr s))"
proof (cases "c s")
  case False
  then show ?thesis
    unfolding run_loop_def by (subst while_option_unfold) (simp add: loop_cond_def)
next
  case True
  show ?thesis
  proof (cases "f s")
    case (Inl e)
    have "while_option (loop_cond c) (loop_step f) (Inl e) = Some (Inl e)"
      by (subst while_option_unfold) (simp add: loop_cond_def)
    with True Inl show ?thesis
      unfolding run_loop_def by (subst while_option_unfold) (simp add: loop_cond_def loop_step_def)
  next
    case (Inr s')
    with True show ?thesis
      unfolding run_loop_def by (subst while_option_unfold) (simp add: loop_cond_def loop_step_def)
  qed
qed

lemmas successors_defs =
  AddSuccessors_def Terminator_AddSuccessors_def block_Terminator_def AppendSuccessors_def
  arg_Block_def Jump_def Branch_def Return_def zero_BasicBlockValue_def
  entry_def loopHeader_def loopBody_def exit_block_def loopTail_def

lemma successors_canonical:
  "AddSuccessors canonical_loop entry add s = Inr (add loopHeader s)"
  "AddSuccessors canonical_loop loopHeader add s = Inr (add exit_block (add loopBody s))"
  "AddSuccessors canonical_loop loopBody add s = Inr (add loopHeader s)"
  "AddSuccessors canonical_loop exit_block add s = Inr s"
  by (simp_all add: successors_defs canonical_loop_def)

lemma successors_tail:
  "AddSuccessors tail_loop entry add s = Inr (add loopHeader s)"
  "AddSuccessors tail_loop loopHeader add s = Inr (add exit_block (add loopBody s))"
  "AddSuccessors tail_loop loopBody add s = Inr (add loopTail s)"
  "AddSuccessors tail_loop loopTail add s = Inr (add loopHeader s)"
  "AddSuccessors tail_loop exit_block add s = Inr s"
  by (simp_all add: successors_defs tail_loop_def)

lemmas LIFO_defs =
  LIFO_Add_def LIFO_Next_def LIFO_Peek_def LIFO_Empty_def LIFO_Length_def newBlockLIFO_def
  ReverseTopN_def ReverseTopN_loop.simps Let_def

lemmas FindPredecessors_defs = FindPredecessors_body_def FindPredecessors_visit_def table_get_def

lemma FindPredecessors_canonical_loop:
  "FindPredecessors canonical_loop entry = Some (Inr canonical_preds)"
proof -
  have "run_loop (\<lambda>s. \<not> LIFO_Empty (snd (snd s))) (FindPredecessors_body canonical_loop)
          (Map.empty, {}, LIFO_Add entry (newBlockLIFO 6))
        = Some (Inr (canonical_preds, {loopBody, exit_block, loopHeader, entry},
                     \<lparr>items = [], present = {}\<rparr>))"
    apply (subst run_loop_unfold, simp add: FindPredecessors_defs LIFO_defs successors_canonical)
    apply (subst run_loop_unfold, simp add: FindPredecessors_defs LIFO_defs successors_canonical)
    apply (subst run_loop_unfold, simp add: FindPredecessors_defs LIFO_defs successors_canonical)
    apply (subst run_loop_unfold, simp add: FindPredecessors_defs LIFO_defs successors_canonical)
    apply (subst run_loop_unfold, simp add: FindPredecessors_defs LIFO_defs successors_canonical)
    apply (rule ext)
    apply (auto simp add: canonical_preds_def)
    done
  then show ?thesis
    by (simp add: FindPredecessors_def)
qed

lemma FindPredecessors_tail_loop:
  "FindPredecessors tail_loop entry = Some (Inr tail_preds)"
proof -
  have "run_loop (\<lambda>s. \<not> LIFO_Empty (snd (snd s))) (FindPredecessors_body tail_loop)
          (Map.empty, {}, LIFO_Add entry (newBlockLIFO 6))
        = Some (Inr (tail_preds, {loopTail, loopBody, exit_block, loopHeader, entry},
                     \<lparr>items = [], present = {}\<rparr>))"
    apply (subst run_loop_unfold, simp add: FindPredecessors_defs LIFO_defs successors_tail)
    apply (subst run_loop_unfold, simp add: FindPredecessors_defs LIFO_defs successors_tail)
    apply (subst run_loop_unfold, simp add: FindPredecessors_defs LIFO_defs successors_tail)
    apply (subst run_loop_unfold, simp add: FindPredecessors_defs LIFO_defs successors_tail)
    apply (subst run_loop_unfold, simp add: FindPredecessors_defs LIFO_defs successors_tail)
    apply (subst run_loop_unfold, simp add: FindPredecessors_defs LIFO_defs successors_tail)
    apply (rule ext)
    apply (auto simp add: tail_preds_def)
    done
  then show ?thesis
    by (simp add: FindPredecessors_def)
qed

section \<open>The visit order of the forward data flow driver\<close>

text \<open>
  Claim C3. On the canonical four-block loop graph, with the test's analyzer that reports
  a change once for entry, twice for loopHeader, once for loopBody and once for exit,
  \<open>ForwardDataFlow\<close> returns after calling the analyzer on exactly entry, loopHeader,
  loopBody, loopHeader, loopBody, exit, in this order.
\<close>

theorem ForwardDataFlow_visit_order:
  "map_option (map_sum id calls)
     (ForwardDataFlow canonical_loop entry logging_AnalyzeBlock test_analyzer)
   = Some (Inr [entry, loopHeader, loopBody, loopHeader, loopBody, exit_block])"
proof -
  have "\<exists>q cc. run_loop (\<lambda>s. \<not> LIFO_Empty (fst s))
          (ForwardDataFlow_body canonical_loop logging_AnalyzeBlock)
          (LIFO_Add entry (newBlockLIFO 6), test_analyzer)
        = Some (Inr (q, \<lparr>changeCount = cc,
                          calls = [entry, loopHeader, loopBody, loopHeader, loopBody, exit_block]\<rparr>))"
    apply (subst run_loop_unfold,
        simp add: ForwardDataFlow_body_def logging_AnalyzeBlock_def test_analyzer_def LIFO_defs
          successors_canonical)
    apply (subst run_loop_unfold,
        simp add: ForwardDataFlow_body_def logging_AnalyzeBlock_def LIFO_defs successors_canonical)
    apply (subst run_loop_unfold,
        simp add: ForwardDataFlow_body_def logging_AnalyzeBlock_def LIFO_defs successors_canonical)
    apply (subst run_loop_unfold,
        simp add: ForwardDataFlow_body_def logging_AnalyzeBlock_def LIFO_defs successors_canonical)
    apply (subst run_loop_unfold,
        simp add: ForwardDataFlow_body_def logging_AnalyzeBlock_def LIFO_defs successors_canonical)
    apply (subst run_loop_unfold,
        simp add: ForwardDataFlow_body_def logging_AnalyzeBlock_def LIFO_defs successors_canonical)
    apply (subst run_loop_unfold,
        simp add: ForwardDataFlow_body_def logging_AnalyzeBlock_def LIFO_defs successors_canonical)
    done
  then show ?thesis
    by (auto simp add: ForwardDataFlow_def)
qed

section \<open>Dominators of the canonical loop\<close>

text \<open>What a valid order of \<open>range\<close> can be on a set of at most two members.\<close>

lemma order_empty: "range_order_ok order \<Longrightarrow> order k {} = []"
  unfolding range_order_ok_def by (metis finite.emptyI set_empty)

lemma order_single:
  assumes ok: "range_order_ok order"
  shows "order k {a} = [a]"
proof -
  from ok have s: "set (order k {a}) = {a}" and d: "distinct (order k {a})"
    unfolding range_order_ok_def by simp_all
  have "length (order k {a}) = 1"
    using distinct_card[OF d] s by simp
  with s show ?thesis
    by (cases "order k {a}") auto
qed

lemma order_pair:
  assumes ok: "range_order_ok order" and ne: "a \<noteq> b"
  shows "order k {a, b} = [a, b] \<or> order k {a, b} = [b, a]"
proof -
  from ok have s: "set (order k {a, b}) = {a, b}" and d: "distinct (order k {a, b})"
    unfolding range_order_ok_def by simp_all
  have "length (order k {a, b}) = 2"
    using distinct_card[OF d] s ne by simp
  then obtain x y where xy: "order k {a, b} = [x, y]"
    by (cases "order k {a, b}"; simp; rename_tac z zs; case_tac zs; simp)
  with s d ne show ?thesis
    by (auto simp: doubleton_eq_iff)
qed

lemma sorted_order_ok: "range_order_ok sorted_order"
  by (simp add: range_order_ok_def sorted_order_def)

lemma sorted_order_single: "sorted_order k {a} = [a]"
  by (rule order_single[OF sorted_order_ok])

lemma remove_missing_Int: "remove_missing s pd = s \<inter> pd"
  by (auto simp add: remove_missing_def)

lemmas dominators_defs =
  dominatorsAnalyzer_def dominators_AnalyzeBlock_def dominators_range_step_def table_get_def
  AddBlocksTo_def remove_missing_Int card_insert_if Let_def

text \<open>The five calls of \<open>AnalyzeBlock\<close> in the run, each in any table it can meet there.\<close>

lemma visit_entry:
  "range_order_ok order \<Longrightarrow> t entry = None \<Longrightarrow>
   dominatorsAnalyzer order canonical_preds entry (t, k) = (True, (t(entry \<mapsto> {entry}), Suc k))"
  by (simp add: dominators_defs canonical_preds_def order_empty)

lemma visit_loopHeader_first:
  "range_order_ok order \<Longrightarrow> t entry = Some {entry} \<Longrightarrow> t loopBody = None \<Longrightarrow>
   t loopHeader = None \<Longrightarrow>
   dominatorsAnalyzer order canonical_preds loopHeader (t, k)
     = (True, (t(loopHeader \<mapsto> {entry, loopHeader}), Suc k))"
  using order_pair[of order entry loopBody k]
  by (auto simp add: dominators_defs canonical_preds_def)

lemma visit_loopBody:
  "range_order_ok order \<Longrightarrow> t loopHeader = Some {entry, loopHeader} \<Longrightarrow> t loopBody = None \<Longrightarrow>
   dominatorsAnalyzer order canonical_preds loopBody (t, k)
     = (True, (t(loopBody \<mapsto> {entry, loopHeader, loopBody}), Suc k))"
  by (auto simp add: dominators_defs canonical_preds_def order_single)

lemma visit_loopHeader_again:
  "range_order_ok order \<Longrightarrow> t entry = Some {entry} \<Longrightarrow>
   t loopBody = Some {entry, loopHeader, loopBody} \<Longrightarrow> t loopHeader = Some {entry, loopHeader} \<Longrightarrow>
   dominatorsAnalyzer order canonical_preds loopHeader (t, k)
     = (False, (t(loopHeader \<mapsto> {entry, loopHeader}), Suc k))"
  using order_pair[of order entry loopBody k]
  by (auto simp add: dominators_defs canonical_preds_def)

lemma visit_exit:
  "range_order_ok order \<Longrightarrow> t loopHeader = Some {entry, loopHeader} \<Longrightarrow> t exit_block = None \<Longrightarrow>
   dominatorsAnalyzer order canonical_preds exit_block (t, k)
     = (True, (t(exit_block \<mapsto> {entry, loopHeader, exit_block}), Suc k))"
  by (auto simp add: dominators_defs canonical_preds_def order_single)

text \<open>
  Claim C1. On the canonical four-block loop graph, whatever the order in which the maps
  are ranged over, \<open>FindPredecessors(entry)\<close> returns a table \<open>preds\<close> and
  \<open>FindDominators(entry, preds)\<close> returns exactly the map entry:{entry},
  loopHeader:{entry, loopHeader}, loopBody:{entry, loopHeader, loopBody},
  exit:{entry, loopHeader, exit}, with no other key.
\<close>

theorem FindDominators_canonical_loop:
  assumes ok: "range_order_ok order"
  shows "FindPredecessors canonical_loop entry = Some (Inr canonical_preds)
         \<and> FindDominators order canonical_loop entry canonical_preds
           = Some (Inr [entry \<mapsto> {entry},
                        loopHeader \<mapsto> {entry, loopHeader},
                        loopBody \<mapsto> {entry, loopHeader, loopBody},
                        exit_block \<mapsto> {entry, loopHeader, exit_block}])"
proof -
  have "\<exists>q k. run_loop (\<lambda>s. \<not> LIFO_Empty (fst s))
          (ForwardDataFlow_body canonical_loop (dominatorsAnalyzer order canonical_preds))
          (LIFO_Add entry (newBlockLIFO 6), (Map.empty, 0))
        = Some (Inr (q, ([entry \<mapsto> {entry},
                          loopHeader \<mapsto> {entry, loopHeader},
                          loopBody \<mapsto> {entry, loopHeader, loopBody},
                          exit_block \<mapsto> {entry, loopHeader, exit_block}], k)))"
    using ok
    apply (subst run_loop_unfold,
        simp add: ForwardDataFlow_body_def LIFO_defs successors_canonical visit_entry)
    apply (subst run_loop_unfold,
        simp add: ForwardDataFlow_body_def LIFO_defs successors_canonical visit_loopHeader_first)
    apply (subst run_loop_unfold,
        simp add: ForwardDataFlow_body_def LIFO_defs successors_canonical visit_loopBody)
    apply (subst run_loop_unfold,
        simp add: ForwardDataFlow_body_def LIFO_defs successors_canonical visit_loopHeader_again)
    apply (subst run_loop_unfold,
        simp add: ForwardDataFlow_body_def LIFO_defs successors_canonical visit_exit)
    apply (subst run_loop_unfold,
        simp add: ForwardDataFlow_body_def LIFO_defs successors_canonical)
    apply (rule ext)
    apply auto
    done
  then have "FindDominators order canonical_loop entry canonical_preds
           = Some (Inr [entry \<mapsto> {entry},
                        loopHeader \<mapsto> {entry, loopHeader},
                        loopBody \<mapsto> {entry, loopHeader, loopBody},
                        exit_block \<mapsto> {entry, loopHeader, exit_block}])"
    by (auto simp add: FindDominators_def ForwardDataFlow_def)
  with FindPredecessors_canonical_loop show ?thesis
    by simp
qed

theorem FindDominators_canonical_loop_witness:
  "range_order_ok sorted_order
   \<and> FindPredecessors canonical_loop entry = Some (Inr canonical_preds)
   \<and> FindDominators sorted_order canonical_loop entry canonical_preds
     = Some (Inr [entry \<mapsto> {entry},
                  loopHeader \<mapsto> {entry, loopHeader},
                  loopBody \<mapsto> {entry, loopHeader, loopBody},
                  exit_block \<mapsto> {entry, loopHeader, exit_block}])"
  using FindDominators_canonical_loop[OF sorted_order_ok] sorted_order_ok by simp

section \<open>The body of the loop with an explicit tail block\<close>

text \<open>
  Claim C5. On the five-block graph (entry, loopHeader, loopBody, loopTail, exit) with
  \<open>preds = FindPredecessors(entry)\<close>, whatever the order in which the maps are ranged
  over, \<open>FindBody(preds)\<close> of the loop with head loopHeader and tail loopTail returns
  exactly the set {loopHeader, loopBody, loopTail}.
\<close>

theorem FindBody_tail_loop:
  assumes ok: "range_order_ok order"
  shows "FindPredecessors tail_loop entry = Some (Inr tail_preds)
         \<and> FindBody order \<lparr>Head = loopHeader, Tail = loopTail\<rparr> tail_preds
           = Some (Inr {loopHeader, loopBody, loopTail})"
proof -
  have "\<exists>q k. run_loop (\<lambda>s. \<not> LIFO_Empty (fst (snd s))) (FindBody_body order tail_preds)
          (insert loopHeader {}, LIFO_Add loopTail (newBlockLIFO 4), 0)
        = Some (Inr ({loopHeader, loopBody, loopTail}, q, k))"
    using ok
    apply (subst run_loop_unfold,
        simp add: FindBody_body_def LIFO_defs tail_preds_def table_get_def order_single)
    apply (subst run_loop_unfold,
        simp add: FindBody_body_def LIFO_defs tail_preds_def table_get_def order_single)
    apply (subst run_loop_unfold,
        simp add: FindBody_body_def LIFO_defs tail_preds_def table_get_def order_single)
    apply (subst run_loop_unfold,
        simp add: FindBody_body_def LIFO_defs tail_preds_def table_get_def order_single)
    apply auto
    done
  then have "FindBody order \<lparr>Head = loopHeader, Tail = loopTail\<rparr> tail_preds
           = Some (Inr {loopHeader, loopBody, loopTail})"
    by (auto simp add: FindBody_def)
  with FindPredecessors_tail_loop show ?thesis
    by simp
qed

theorem FindBody_tail_loop_witness:
  "range_order_ok sorted_order
   \<and> FindPredecessors tail_loop entry = Some (Inr tail_preds)
   \<and> FindBody sorted_order \<lparr>Head = loopHeader, Tail = loopTail\<rparr> tail_preds
     = Some (Inr {loopHeader, loopBody, loopTail})"
  using FindBody_tail_loop[OF sorted_order_ok] sorted_order_ok by simp

section \<open>The predecessor table of every graph\<close>

lemma AddSuccessors_successors:
  "AddSuccessors h b add s =
     (case successors h b of Inl e \<Rightarrow> Inl e | Inr ss \<Rightarrow> Inr (fold add ss s))"
  by (simp add: AddSuccessors_def successors_def Terminator_AddSuccessors_def split: sum.splits)

text \<open>
  Total correctness of a loop: an invariant that every turn of the loop keeps, while a
  measure decreases, holds when the loop ends, and the loop does end, without a panic.
\<close>

lemma run_loop_total:
  assumes "I s0"
    and step: "\<And>s. I s \<Longrightarrow> c s \<Longrightarrow> \<exists>s'. f s = Inr s' \<and> I s' \<and> m s' < (m s :: nat)"
  shows "\<exists>s. run_loop c f s0 = Some (Inr s) \<and> I s \<and> \<not> c s"
  using \<open>I s0\<close>
proof (induction "m s0" arbitrary: s0 rule: less_induct)
  case less
  show ?case
  proof (cases "c s0")
    case False
    with less.prems show ?thesis
      by (subst run_loop_unfold) simp
  next
    case True
    from step[OF less.prems True] obtain s' where s': "f s0 = Inr s'" "I s'" "m s' < m s0"
      by blast
    from less.hyps[OF s'(3) s'(2)] obtain s where "run_loop c f s' = Some (Inr s)" "I s" "\<not> c s"
      by blast
    with True s'(1) show ?thesis
      by (subst run_loop_unfold) simp
  qed
qed

lemma LIFO_Add_ok:
  "LIFO_ok q \<Longrightarrow> LIFO_ok (LIFO_Add b q) \<and> set (items (LIFO_Add b q)) = insert b (set (items q))"
  by (auto simp add: LIFO_ok_def LIFO_Add_def)

lemma fold_LIFO_Add_ok:
  "LIFO_ok q \<Longrightarrow> LIFO_ok (fold LIFO_Add xs q) \<and> set (items (fold LIFO_Add xs q)) = set (items q) \<union> set xs"
proof (induction xs arbitrary: q)
  case Nil
  then show ?case by simp
next
  case (Cons x xs)
  from LIFO_Add_ok[OF Cons.prems, of x]
  have ok: "LIFO_ok (LIFO_Add x q)" and s: "set (items (LIFO_Add x q)) = insert x (set (items q))"
    by simp_all
  from Cons.IH[OF ok] s show ?case by auto
qed

lemma LIFO_Next_ok:
  assumes "LIFO_ok q" "items q \<noteq> []" "last (items q) \<noteq> None"
  shows "LIFO_Next q = (last (items q), (q\<lparr>items := butlast (items q), present := present q - {last (items q)}\<rparr>))"
    and "LIFO_ok (q\<lparr>items := butlast (items q), present := present q - {last (items q)}\<rparr>)"
    and "set (items q) = insert (last (items q)) (set (butlast (items q)))"
    and "last (items q) \<notin> set (butlast (items q))"
proof -
  from assms(2) have ab: "items q = butlast (items q) @ [last (items q)]" by simp
  from assms(1) have d: "distinct (butlast (items q) @ [last (items q)])"
    unfolding LIFO_ok_def using ab by metis
  show "last (items q) \<notin> set (butlast (items q))" using d by simp
  show "set (items q) = insert (last (items q)) (set (butlast (items q)))"
    by (subst ab) simp
  then show "LIFO_ok (q\<lparr>items := butlast (items q), present := present q - {last (items q)}\<rparr>)"
    using assms(1) d by (auto simp add: LIFO_ok_def distinct_butlast)
  show "LIFO_Next q = (last (items q), (q\<lparr>items := butlast (items q), present := present q - {last (items q)}\<rparr>))"
    using assms by (auto simp add: LIFO_Next_def LIFO_Peek_def LIFO_Empty_def Let_def)
qed

lemma fold_FindPredecessors_visit:
  "fold (FindPredecessors_visit pred seen) ss (ret, q) =
     ((\<lambda>b. if b \<in> set ss then Some (insert pred (table_get ret b)) else ret b),
      fold LIFO_Add (filter (\<lambda>b. b \<notin> seen) ss) q)"
proof (induction ss arbitrary: ret q)
  case Nil
  then show ?case by simp
next
  case (Cons s ss)
  have v: "FindPredecessors_visit pred seen s (ret, q) =
      (ret(s \<mapsto> insert pred (table_get ret s)), if s \<notin> seen then LIFO_Add s q else q)"
    by (auto simp add: FindPredecessors_visit_def Let_def table_get_def)
  show ?case
    by (simp add: v Cons.IH) (auto simp add: table_get_def fun_eq_iff)
qed


lemma successors_nil: "successors h None = Inl NilDereference"
  by (simp add: successors_def block_Terminator_def)

lemma successors_in_heap:
  "successors h b = Inr ss \<Longrightarrow> \<exists>a. b = Some a \<and> a < length h"
  by (auto simp add: successors_def block_Terminator_def split: option.splits if_splits)

lemma reachable_start: "start \<in> reachable h start"
  by (simp add: reachable_def)

lemma reachable_step:
  "a \<in> reachable h start \<Longrightarrow> (a, b) \<in> edges h \<Longrightarrow> b \<in> reachable h start"
  unfolding reachable_def by (auto intro: rtrancl_into_rtrancl)

lemma reachable_closed:
  assumes "start \<in> S" and "edges h `` S \<subseteq> S"
  shows "reachable h start \<subseteq> S"
proof
  fix b assume "b \<in> reachable h start"
  then have "(start, b) \<in> (edges h)\<^sup>*" by (simp add: reachable_def)
  then show "b \<in> S"
    by (induction rule: rtrancl_induct) (use assms in auto)
qed

lemma reachable_finite:
  assumes "\<forall>b \<in> reachable h start. \<exists>ss. successors h b = Inr ss"
  shows "finite (reachable h start)"
proof -
  have "reachable h start \<subseteq> Some ` {..<length h}"
    using assms successors_in_heap by (metis (no_types, lifting) image_iff lessThan_iff subsetI)
  then show ?thesis by (rule finite_subset) simp
qed

lemma FindPredecessors_body_step:
  assumes hyp: "\<forall>b \<in> reachable h start. \<exists>ss. successors h b = Inr ss"
    and inv: "FindPredecessors_inv h start s"
    and ne: "\<not> LIFO_Empty (snd (snd s))"
  shows "\<exists>s'. FindPredecessors_body h s = Inr s' \<and> FindPredecessors_inv h start s'
           \<and> card (reachable h start - fst (snd s')) < card (reachable h start - fst (snd s))"
proof -
  obtain ret seen q where s: "s = (ret, seen, q)" by (cases s) auto
  let ?R = "reachable h start" and ?E = "edges h"
  from inv s have ok: "LIFO_ok q" and disj: "seen \<inter> set (items q) = {}"
    and sub: "seen \<union> set (items q) \<subseteq> ?R" and st: "start \<in> seen \<union> set (items q)"
    and cl: "?E `` seen \<subseteq> seen \<union> set (items q)"
    and rt: "\<And>b. ret b = (if {a \<in> seen. (a, b) \<in> ?E} = {} then None
                        else Some {a \<in> seen. (a, b) \<in> ?E})"
    by (simp_all add: FindPredecessors_inv_def)
  from ne s have items: "items q \<noteq> []" by (simp add: LIFO_Empty_def)
  define pred where "pred = last (items q)"
  let ?q1 = "q\<lparr>items := butlast (items q), present := present q - {pred}\<rparr>"
  from items have pin: "pred \<in> set (items q)" by (simp add: pred_def)
  with sub have pR: "pred \<in> ?R" by auto
  with hyp obtain ss where ss: "successors h pred = Inr ss" by blast
  then have pnn: "pred \<noteq> None" using successors_in_heap by blast
  note nx = LIFO_Next_ok[OF ok items pnn[unfolded pred_def], folded pred_def]
  have pnew: "pred \<notin> seen" using disj pin by auto
  define ret' where "ret' = (\<lambda>b. if b \<in> set ss then Some (insert pred (table_get ret b)) else ret b)"
  define q' where "q' = fold LIFO_Add (filter (\<lambda>b. b \<notin> insert pred seen) ss) ?q1"
  have body: "FindPredecessors_body h s = Inr (ret', insert pred seen, q')"
    by (simp add: FindPredecessors_body_def s nx(1) AddSuccessors_successors ss
        fold_FindPredecessors_visit ret'_def q'_def Let_def)
  from fold_LIFO_Add_ok[OF nx(2), of "filter (\<lambda>b. b \<notin> insert pred seen) ss"]
  have ok': "LIFO_ok q'" and items': "set (items q') = set (butlast (items q)) \<union> (set ss - insert pred seen)"
    by (auto simp add: q'_def)
  have ssE: "set ss = ?E `` {pred}"
    using ss by (auto simp add: edges_def)
  have ssR: "set ss \<subseteq> ?R"
    using pR reachable_step ssE by blast
  have i2: "insert pred seen \<inter> set (items q') = {}"
    using disj nx(3) nx(4) items' by auto
  have i3: "insert pred seen \<union> set (items q') \<subseteq> ?R"
    using sub pR ssR nx(3) items' by auto
  have i4: "start \<in> insert pred seen \<union> set (items q')"
    using st nx(3) items' by auto
  have i5: "?E `` insert pred seen \<subseteq> insert pred seen \<union> set (items q')"
    using cl ssE nx(3) items' by auto
  have i6: "ret' b = (if {a \<in> insert pred seen. (a, b) \<in> ?E} = {} then None
                        else Some {a \<in> insert pred seen. (a, b) \<in> ?E})" for b
  proof (cases "b \<in> set ss")
    case True
    then have "(pred, b) \<in> ?E" using ssE by auto
    then have "{a \<in> insert pred seen. (a, b) \<in> ?E} = insert pred {a \<in> seen. (a, b) \<in> ?E}"
      by auto
    moreover have "table_get ret b = {a \<in> seen. (a, b) \<in> ?E}"
      by (simp add: table_get_def rt)
    ultimately show ?thesis using True by (simp add: ret'_def)
  next
    case False
    then have "(pred, b) \<notin> ?E" using ssE by auto
    then have "{a \<in> insert pred seen. (a, b) \<in> ?E} = {a \<in> seen. (a, b) \<in> ?E}"
      by auto
    then show ?thesis using False by (simp add: ret'_def rt)
  qed
  have inv': "FindPredecessors_inv h start (ret', insert pred seen, q')"
    unfolding FindPredecessors_inv_def prod.case by (intro conjI allI ok' i2 i3 i4 i5 i6)
  have fin: "finite ?R" by (rule reachable_finite[OF hyp])
  have "?R - insert pred seen \<subset> ?R - seen"
    using pR pnew by auto
  then have "card (?R - insert pred seen) < card (?R - seen)"
    using fin by (simp add: psubset_card_mono)
  with body inv' show ?thesis by (simp add: s)
qed


lemma reachable_has_pred:
  assumes "b \<in> reachable h start" "b \<noteq> start"
  shows "\<exists>a \<in> reachable h start. (a, b) \<in> edges h"
proof -
  from assms(1) have "(start, b) \<in> (edges h)\<^sup>*" by (simp add: reachable_def)
  then show ?thesis
    using assms(2) by (cases rule: rtranclE) (auto simp add: reachable_def)
qed

text \<open>
  Claim C2, amended. For every graph and start block such that every block reachable from
  the start has a terminator whose successors can be enumerated, \<open>FindPredecessors(start)\<close>
  returns a table with exactly one entry per block that some reachable block has an edge
  into, and this entry is exactly the (non-empty) set of the reachable blocks with an edge
  into it. A block without such an edge has no entry. Every reachable block other than the
  start has an entry: the keys, together with the start block, are exactly the reachable
  blocks.
\<close>

theorem FindPredecessors_table:
  assumes terminated: "all_reachable_terminated h start"
  shows "\<exists>preds. FindPredecessors h start = Some (Inr preds)
           \<and> (\<forall>b. preds b = (if reachable_preds h start b = {} then None
                              else Some (reachable_preds h start b)))
           \<and> insert start (dom preds) = reachable h start"
proof -
  from terminated have hyp: "\<forall>b \<in> reachable h start. \<exists>ss. successors h b = Inr ss"
    by (simp add: all_reachable_terminated_def)
  let ?R = "reachable h start" and ?E = "edges h"
  let ?s0 = "(Map.empty, {}, LIFO_Add start (newBlockLIFO 6))"
  have init: "FindPredecessors_inv h start ?s0"
    by (simp add: FindPredecessors_inv_def LIFO_ok_def LIFO_Add_def newBlockLIFO_def
        reachable_start)
  from run_loop_total[of "FindPredecessors_inv h start" ?s0
      "\<lambda>s. \<not> LIFO_Empty (snd (snd s))" "FindPredecessors_body h"
      "\<lambda>s. card (?R - fst (snd s))", OF init FindPredecessors_body_step[OF hyp]]
  obtain s where run: "run_loop (\<lambda>s. \<not> LIFO_Empty (snd (snd s))) (FindPredecessors_body h) ?s0
        = Some (Inr s)"
    and inv: "FindPredecessors_inv h start s" and fin: "LIFO_Empty (snd (snd s))"
    by blast
  obtain ret seen q where s: "s = (ret, seen, q)" by (cases s) auto
  from fin s have e: "items q = []" by (simp add: LIFO_Empty_def)
  from inv s e have sub: "seen \<subseteq> ?R" and st: "start \<in> seen" and cl: "?E `` seen \<subseteq> seen"
    and rt: "\<And>b. ret b = (if {a \<in> seen. (a, b) \<in> ?E} = {} then None
                        else Some {a \<in> seen. (a, b) \<in> ?E})"
    by (simp_all add: FindPredecessors_inv_def)
  from reachable_closed[OF st cl] sub have seen: "seen = ?R" by auto
  have r: "FindPredecessors h start = Some (Inr ret)"
    by (simp add: FindPredecessors_def run s)
  have t: "ret b = (if reachable_preds h start b = {} then None
                    else Some (reachable_preds h start b))" for b
    using rt[of b] by (simp add: seen reachable_preds_def)
  have "dom ret = {b. reachable_preds h start b \<noteq> {}}"
    by (auto simp add: dom_def t)
  also have "insert start \<dots> = ?R"
  proof (intro equalityI subsetI)
    fix b assume "b \<in> insert start {b. reachable_preds h start b \<noteq> {}}"
    then show "b \<in> ?R"
      using reachable_step[of _ h start b] reachable_start[of start h]
      by (auto simp add: reachable_preds_def)
  next
    fix b assume "b \<in> ?R"
    then show "b \<in> insert start {b. reachable_preds h start b \<noteq> {}}"
      using reachable_has_pred[of b h start] by (auto simp add: reachable_preds_def)
  qed
  finally have "insert start (dom ret) = ?R" by simp
  with r t show ?thesis by blast
qed


lemma successors_list_canonical:
  "successors canonical_loop entry = Inr [loopHeader]"
  "successors canonical_loop loopHeader = Inr [loopBody, exit_block]"
  "successors canonical_loop loopBody = Inr [loopHeader]"
  "successors canonical_loop exit_block = Inr []"
  by (simp_all add: successors_def successors_defs canonical_loop_def)

lemma reachable_canonical:
  "reachable canonical_loop entry \<subseteq> {entry, loopHeader, loopBody, exit_block}"
  by (rule reachable_closed) (auto simp add: edges_def successors_list_canonical)

text \<open>
  Claim C2 as stated fails on the canonical loop graph: the table that
  \<open>FindPredecessors(entry)\<close> returns has no entry for the start block entry, which is
  reachable from itself.
\<close>

theorem FindPredecessors_no_key_for_start:
  "FindPredecessors canonical_loop entry = Some (Inr canonical_preds)
   \<and> canonical_preds entry = None"
  using FindPredecessors_canonical_loop by (simp add: canonical_preds_def)

text \<open>The amended claim C2 at the canonical loop graph.\<close>

theorem FindPredecessors_table_witness:
  "all_reachable_terminated canonical_loop entry
   \<and> (\<exists>preds. FindPredecessors canonical_loop entry = Some (Inr preds)
           \<and> (\<forall>b. preds b = (if reachable_preds canonical_loop entry b = {} then None
                              else Some (reachable_preds canonical_loop entry b)))
           \<and> insert entry (dom preds) = reachable canonical_loop entry)"
proof -
  have h: "all_reachable_terminated canonical_loop entry"
    using reachable_canonical
    by (auto simp add: all_reachable_terminated_def successors_list_canonical)
  from FindPredecessors_table[OF h] h show ?thesis by blast
qed

section \<open>The natural loops of every dominators table\<close>

lemma fold_FindNaturalLoops_visit:
  "fold (FindNaturalLoops_visit b D) ss to
     = to @ map (\<lambda>s. \<lparr>Head = s, Tail = b\<rparr>) (filter (\<lambda>s. s \<in> D) ss)"
  by (induction ss arbitrary: to) (simp_all add: FindNaturalLoops_visit_def)

lemma FindNaturalLoops_range_append:
  assumes "\<forall>b \<in> set keys. \<exists>ss. successors h b = Inr ss"
  shows "FindNaturalLoops_range h doms keys to = Inr (to @ concat (map (back_edges h doms) keys))"
  using assms
proof (induction keys arbitrary: to)
  case Nil
  then show ?case by simp
next
  case (Cons b keys)
  then obtain ss where ss: "successors h b = Inr ss" by auto
  have "AddSuccessors h b (FindNaturalLoops_visit b (table_get doms b)) to
          = Inr (to @ back_edges h doms b)"
    by (simp add: AddSuccessors_successors ss fold_FindNaturalLoops_visit back_edges_def
        successors_of_def)
  with Cons show ?case by simp
qed

lemma count_list_filter:
  "count_list (filter P xs) x = (if P x then count_list xs x else 0)"
  by (induction xs) auto

lemma count_list_loops:
  "count_list (map (\<lambda>s. \<lparr>Head = s, Tail = b'\<rparr>) xs) \<lparr>Head = s, Tail = b\<rparr>
     = (if b' = b then count_list xs s else 0)"
  by (induction xs) auto

lemma count_list_back_edges:
  "distinct keys \<Longrightarrow>
   count_list (concat (map (back_edges h doms) keys)) \<lparr>Head = s, Tail = b\<rparr>
     = (if b \<in> set keys \<and> s \<in> table_get doms b then count_list (successors_of h b) s else 0)"
  by (induction keys) (auto simp add: back_edges_def count_list_loops count_list_filter)

text \<open>
  Claim C6, amended. For every dominators table whose keys are blocks with a terminator
  whose successors can be enumerated, every initial sequence of loops and every order of
  ranging over the table, \<open>FindNaturalLoops\<close> returns the given sequence, unchanged and
  in order, followed by new loops; among the new loops, the loop with head \<open>s\<close> and tail
  \<open>b\<close> occurs as many times as \<open>s\<close> occurs in the successor enumeration of
  \<open>b\<close> when \<open>b\<close> is a key of the table and \<open>s\<close> is in the dominator set of
  \<open>b\<close>, and does not occur otherwise.
\<close>

theorem FindNaturalLoops_back_edges:
  assumes ok: "range_order_ok order" and fin: "finite (dom doms)"
    and terminated: "all_keys_terminated h doms"
  shows "\<exists>new. FindNaturalLoops order h doms to = Inr (to @ new)
           \<and> (\<forall>b s. count_list new \<lparr>Head = s, Tail = b\<rparr>
                  = (if b \<in> dom doms \<and> s \<in> table_get doms b
                     then count_list (successors_of h b) s else 0))"
proof -
  from ok fin have keys: "set (order 0 (dom doms)) = dom doms" "distinct (order 0 (dom doms))"
    by (simp_all add: range_order_ok_def)
  from terminated keys(1)
  have "\<forall>b \<in> set (order 0 (dom doms)). \<exists>ss. successors h b = Inr ss"
    by (simp add: all_keys_terminated_def)
  from FindNaturalLoops_range_append[OF this]
  have "FindNaturalLoops order h doms to
          = Inr (to @ concat (map (back_edges h doms) (order 0 (dom doms))))"
    by (simp add: FindNaturalLoops_def)
  moreover have "count_list (concat (map (back_edges h doms) (order 0 (dom doms))))
        \<lparr>Head = s, Tail = b\<rparr>
      = (if b \<in> dom doms \<and> s \<in> table_get doms b then count_list (successors_of h b) s else 0)"
    for b s
    using count_list_back_edges[OF keys(2), of h doms s b] keys(1) by simp
  ultimately show ?thesis by blast
qed

text \<open>The amended claim C6 at the canonical loop graph and its dominators table.\<close>

theorem FindNaturalLoops_back_edges_witness:
  "range_order_ok sorted_order
   \<and> finite (dom [entry \<mapsto> {entry}, loopHeader \<mapsto> {entry, loopHeader},
                   loopBody \<mapsto> {entry, loopHeader, loopBody},
                   exit_block \<mapsto> {entry, loopHeader, exit_block}])
   \<and> all_keys_terminated canonical_loop
         [entry \<mapsto> {entry}, loopHeader \<mapsto> {entry, loopHeader},
          loopBody \<mapsto> {entry, loopHeader, loopBody},
          exit_block \<mapsto> {entry, loopHeader, exit_block}]
   \<and> (\<exists>new. FindNaturalLoops sorted_order canonical_loop
                [entry \<mapsto> {entry}, loopHeader \<mapsto> {entry, loopHeader},
                 loopBody \<mapsto> {entry, loopHeader, loopBody},
                 exit_block \<mapsto> {entry, loopHeader, exit_block}] [] = Inr ([] @ new)
           \<and> (\<forall>b s. count_list new \<lparr>Head = s, Tail = b\<rparr>
                  = (if b \<in> dom [entry \<mapsto> {entry}, loopHeader \<mapsto> {entry, loopHeader},
                                  loopBody \<mapsto> {entry, loopHeader, loopBody},
                                  exit_block \<mapsto> {entry, loopHeader, exit_block}]
                        \<and> s \<in> table_get [entry \<mapsto> {entry}, loopHeader \<mapsto> {entry, loopHeader},
                                  loopBody \<mapsto> {entry, loopHeader, loopBody},
                                  exit_block \<mapsto> {entry, loopHeader, exit_block}] b
                     then count_list (successors_of canonical_loop b) s else 0)))"
proof -
  let ?doms = "[entry \<mapsto> {entry}, loopHeader \<mapsto> {entry, loopHeader},
                loopBody \<mapsto> {entry, loopHeader, loopBody},
                exit_block \<mapsto> {entry, loopHeader, exit_block}]"
  have fin: "finite (dom ?doms)" by simp
  have succs: "all_keys_terminated canonical_loop ?doms"
    by (auto simp add: all_keys_terminated_def successors_list_canonical)
  from FindNaturalLoops_back_edges[OF sorted_order_ok fin succs, of "[]"] sorted_order_ok fin succs
  show ?thesis by blast
qed

lemma successors_twin_branch: "successors twin_branch entry = Inr [entry, entry]"
  by (simp add: successors_def successors_defs twin_branch_def)

lemma twin_branch_visits:
  "dominatorsAnalyzer sorted_order [entry \<mapsto> {entry}] entry (Map.empty, k)
     = (True, ([entry \<mapsto> {entry}], Suc k))"
  "dominatorsAnalyzer sorted_order [entry \<mapsto> {entry}] entry ([entry \<mapsto> {entry}], k)
     = (False, ([entry \<mapsto> {entry}], Suc k))"
  by (auto simp add: dominators_defs sorted_order_single)

text \<open>
  Claim C6 as stated fails on a block whose branch names the block itself as both targets:
  \<open>FindPredecessors\<close> and \<open>FindDominators\<close> give the tables entry:{entry}, and
  \<open>FindNaturalLoops\<close> appends the loop with head entry and tail entry twice, not
  once.
\<close>

theorem FindNaturalLoops_twice_the_same_loop:
  "FindPredecessors twin_branch entry = Some (Inr [entry \<mapsto> {entry}])
   \<and> FindDominators sorted_order twin_branch entry [entry \<mapsto> {entry}]
       = Some (Inr [entry \<mapsto> {entry}])
   \<and> FindNaturalLoops sorted_order twin_branch [entry \<mapsto> {entry}] []
       = Inr [\<lparr>Head = entry, Tail = entry\<rparr>, \<lparr>Head = entry, Tail = entry\<rparr>]"
proof -
  have p: "run_loop (\<lambda>s. \<not> LIFO_Empty (snd (snd s))) (FindPredecessors_body twin_branch)
          (Map.empty, {}, LIFO_Add entry (newBlockLIFO 6))
        = Some (Inr ([entry \<mapsto> {entry}], {entry}, \<lparr>items = [], present = {}\<rparr>))"
    apply (subst run_loop_unfold,
        simp add: FindPredecessors_defs LIFO_defs AddSuccessors_successors successors_twin_branch)
    apply (subst run_loop_unfold,
        simp add: FindPredecessors_defs LIFO_defs AddSuccessors_successors successors_twin_branch)
    done
  have "\<exists>q k. run_loop (\<lambda>s. \<not> LIFO_Empty (fst s))
          (ForwardDataFlow_body twin_branch (dominatorsAnalyzer sorted_order [entry \<mapsto> {entry}]))
          (LIFO_Add entry (newBlockLIFO 6), (Map.empty, 0))
        = Some (Inr (q, ([entry \<mapsto> {entry}], k)))"
    apply (subst run_loop_unfold,
        simp add: ForwardDataFlow_body_def LIFO_defs AddSuccessors_successors
          successors_twin_branch twin_branch_visits)
    apply (subst run_loop_unfold,
        simp add: ForwardDataFlow_body_def LIFO_defs AddSuccessors_successors
          successors_twin_branch twin_branch_visits)
    apply (subst run_loop_unfold,
        simp add: ForwardDataFlow_body_def LIFO_defs AddSuccessors_successors
          successors_twin_branch twin_branch_visits)
    done
  then have d: "FindDominators sorted_order twin_branch entry [entry \<mapsto> {entry}]
       = Some (Inr [entry \<mapsto> {entry}])"
    by (auto simp add: FindDominators_def ForwardDataFlow_def)
  have "FindNaturalLoops sorted_order twin_branch [entry \<mapsto> {entry}] []
       = Inr [\<lparr>Head = entry, Tail = entry\<rparr>, \<lparr>Head = entry, Tail = entry\<rparr>]"
    by (simp add: FindNaturalLoops_def sorted_order_single AddSuccessors_successors
        successors_twin_branch FindNaturalLoops_visit_def table_get_def)
  with p d show ?thesis
    by (simp add: FindPredecessors_def)
qed

section \<open>Where the code departs from its own documentation\<close>

subsection \<open>The first argument of a store\<close>

text \<open>
  Claim C8 (the code does otherwise). \<open>Store(val, ref)\<close> with \<open>val\<close> the literal at
  address 0 and \<open>ref\<close> the local symbol at address 1 allocates the store node at
  address 2, with operation code \<open>OpStore\<close> and two arguments; the second argument
  is \<open>ref\<close>, but the first argument is the store node itself, not \<open>val\<close>.
\<close>

theorem Store_first_argument_is_the_node:
  "Store (Some 0) (Some 1) two_values
   = (Some 2, two_values @ [\<lparr>v_op = OpStore, v_args = [Some 2, Some 1], v_aux = AuxNil\<rparr>])"
  by (simp add: Store_def two_values_def LocalSym_def AuxLiteral_def new_Value_def Let_def
      numeral_2_eq_2)

subsection \<open>Peeking into an empty queue\<close>

text \<open>
  Claim C9 (the code does otherwise). \<open>Peek\<close> on an empty stack returns nil, but
  \<open>Peek\<close> on an empty queue dereferences the nil pointer \<open>q.next\<close> and panics.
\<close>

theorem Peek_empty:
  "LIFO_Peek (newBlockLIFO 6) = None \<and> FIFO_Peek newblockFIFO = Inl NilDereference"
  by (simp add: LIFO_Peek_def LIFO_Empty_def newBlockLIFO_def FIFO_Peek_def newblockFIFO_def)

subsection \<open>Reachable blocks\<close>

text \<open>
  Claim C10 (the code does otherwise). On the canonical loop graph, where all four blocks
  are reachable from entry, \<open>entry.AddReachable\<close> on an empty set returns with the set
  {entry, loopHeader}: loopBody and exit are missing.
\<close>

theorem AddReachable_canonical_loop:
  "AddReachable canonical_loop entry {} = Some (Inr {entry, loopHeader})"
proof -
  have t: "block_Terminator canonical_loop entry = Inr (Jump loopHeader)"
    by (simp add: block_Terminator_def canonical_loop_def entry_def)
  have a: "AppendSuccessors (Jump loopHeader) to = Inr (to @ [loopHeader])" for to
    by (simp add: AppendSuccessors_def arg_Block_def Jump_def zero_BasicBlockValue_def)
  have "run_loop (\<lambda>s. fst s \<noteq> []) (AddReachable_body canonical_loop entry) ([] @ [entry], {})
        = Some (Inr ([], {loopHeader, entry}))"
    apply (subst run_loop_unfold, simp add: AddReachable_body_def t a)
    apply (subst run_loop_unfold, simp add: AddReachable_body_def t a)
    apply (subst run_loop_unfold, simp add: AddReachable_body_def t a)
    apply (subst run_loop_unfold, simp add: AddReachable_body_def t a)
    done
  then show ?thesis
    by (auto simp add: AddReachable_def)
qed

subsection \<open>A dominator set that grows\<close>

lemma successors_two_cycle:
  "AddSuccessors two_cycle entry add s = Inr (add loopHeader s)"
  "AddSuccessors two_cycle loopHeader add s = Inr (add entry s)"
  by (simp_all add: successors_defs two_cycle_def)

lemma FindPredecessors_two_cycle:
  "FindPredecessors two_cycle entry = Some (Inr two_cycle_preds)"
proof -
  have "run_loop (\<lambda>s. \<not> LIFO_Empty (snd (snd s))) (FindPredecessors_body two_cycle)
          (Map.empty, {}, LIFO_Add entry (newBlockLIFO 6))
        = Some (Inr (two_cycle_preds, {loopHeader, entry}, \<lparr>items = [], present = {}\<rparr>))"
    apply (subst run_loop_unfold, simp add: FindPredecessors_defs LIFO_defs successors_two_cycle)
    apply (subst run_loop_unfold, simp add: FindPredecessors_defs LIFO_defs successors_two_cycle)
    apply (subst run_loop_unfold, simp add: FindPredecessors_defs LIFO_defs successors_two_cycle)
    apply (rule ext)
    apply (auto simp add: two_cycle_preds_def)
    done
  then show ?thesis
    by (simp add: FindPredecessors_def)
qed

lemma two_cycle_visits:
  "dominatorsAnalyzer sorted_order two_cycle_preds entry (Map.empty, k)
     = (True, ([entry \<mapsto> {entry}], Suc k))"
  "dominatorsAnalyzer sorted_order two_cycle_preds loopHeader ([entry \<mapsto> {entry}], k)
     = (True, ([entry \<mapsto> {entry}, loopHeader \<mapsto> {entry, loopHeader}], Suc k))"
  "dominatorsAnalyzer sorted_order two_cycle_preds entry
       ([entry \<mapsto> {entry}, loopHeader \<mapsto> {entry, loopHeader}], k)
     = (True, ([entry \<mapsto> {entry, loopHeader}, loopHeader \<mapsto> {entry, loopHeader}], Suc k))"
  "dominatorsAnalyzer sorted_order two_cycle_preds loopHeader
       ([entry \<mapsto> {entry, loopHeader}, loopHeader \<mapsto> {entry, loopHeader}], k)
     = (False, ([entry \<mapsto> {entry, loopHeader}, loopHeader \<mapsto> {entry, loopHeader}], Suc k))"
  by (auto simp add: dominators_defs two_cycle_preds_def sorted_order_single)

text \<open>
  Claim C4 (the code does otherwise). On the two-block cycle entry, loopHeader the run of
  \<open>FindDominators\<close> calls \<open>AnalyzeBlock\<close> on entry, loopHeader, entry, loopHeader.
  The second visit of entry starts from the set {entry} and leaves the set
  {entry, loopHeader}: the set has gained a member that is not the block itself. The table
  returned gives entry the dominators {entry, loopHeader}.
\<close>

theorem AnalyzeBlock_set_grows:
  "FindPredecessors two_cycle entry = Some (Inr two_cycle_preds)
   \<and> FindDominators sorted_order two_cycle entry two_cycle_preds
       = Some (Inr [entry \<mapsto> {entry, loopHeader}, loopHeader \<mapsto> {entry, loopHeader}])
   \<and> dominatorsAnalyzer sorted_order two_cycle_preds entry (Map.empty, 0)
       = (True, ([entry \<mapsto> {entry}], 1))
   \<and> dominatorsAnalyzer sorted_order two_cycle_preds loopHeader ([entry \<mapsto> {entry}], 1)
       = (True, ([entry \<mapsto> {entry}, loopHeader \<mapsto> {entry, loopHeader}], 2))
   \<and> dominatorsAnalyzer sorted_order two_cycle_preds entry
         ([entry \<mapsto> {entry}, loopHeader \<mapsto> {entry, loopHeader}], 2)
       = (True, ([entry \<mapsto> {entry, loopHeader}, loopHeader \<mapsto> {entry, loopHeader}], 3))"
proof -
  have "\<exists>q k. run_loop (\<lambda>s. \<not> LIFO_Empty (fst s))
          (ForwardDataFlow_body two_cycle (dominatorsAnalyzer sorted_order two_cycle_preds))
          (LIFO_Add entry (newBlockLIFO 6), (Map.empty, 0))
        = Some (Inr (q, ([entry \<mapsto> {entry, loopHeader},
                          loopHeader \<mapsto> {entry, loopHeader}], k)))"
    apply (subst run_loop_unfold,
        simp add: ForwardDataFlow_body_def LIFO_defs successors_two_cycle two_cycle_visits)
    apply (subst run_loop_unfold,
        simp add: ForwardDataFlow_body_def LIFO_defs successors_two_cycle two_cycle_visits)
    apply (subst run_loop_unfold,
        simp add: ForwardDataFlow_body_def LIFO_defs successors_two_cycle two_cycle_visits)
    apply (subst run_loop_unfold,
        simp add: ForwardDataFlow_body_def LIFO_defs successors_two_cycle two_cycle_visits)
    apply (subst run_loop_unfold,
        simp add: ForwardDataFlow_body_def LIFO_defs successors_two_cycle two_cycle_visits)
    done
  then have "FindDominators sorted_order two_cycle entry two_cycle_preds
       = Some (Inr [entry \<mapsto> {entry, loopHeader}, loopHeader \<mapsto> {entry, loopHeader}])"
    by (auto simp add: FindDominators_def ForwardDataFlow_def)
  with FindPredecessors_two_cycle two_cycle_visits show ?thesis
    by (simp add: numeral_2_eq_2 numeral_3_eq_3)
qed

end
